theory Spec2Isabelle
  imports Main "HOL-Library.Word"
begin

section \<open>Bytes and Python's integer conversions\<close>

text \<open>
  Python's \<open>int\<close> is unbounded and is modelled by \<open>int\<close>; a \<open>bytes\<close> value is a
  list of 8-bit words. Every exception that the modelled code can raise is a
  constructor of \<open>error\<close>, and a function that can raise returns \<open>error + 'a\<close>.
\<close>

type_synonym byte = "8 word"

datatype error =
    InvalidMagicNumber
  | UnsupportedFormatVersion int "int list"
  | OverflowError
  | TruncatedFrame
  | DecodeFailure
  | AttributeError
  | ValueError

text \<open>\<open>le_bytes len n\<close>: the \<open>len\<close> low-order base-256 digits of \<open>n\<close>, least
  significant first.\<close>

fun le_bytes :: "nat \<Rightarrow> int \<Rightarrow> byte list" where
  "le_bytes 0 n = []"
| "le_bytes (Suc len) n = word_of_int (n mod 256) # le_bytes len (n div 256)"

text \<open>\<open>n.to_bytes(len, "little", signed=False)\<close>: raises \<open>OverflowError\<close> when \<open>n\<close>
  is negative or does not fit into \<open>len\<close> bytes.\<close>

definition to_bytes :: "int \<Rightarrow> nat \<Rightarrow> error + byte list" where
  "to_bytes n len =
     (if n < 0 \<or> 256 ^ len \<le> n then Inl OverflowError else Inr (le_bytes len n))"

text \<open>\<open>int.from_bytes(bs, "little", signed=False)\<close>.\<close>

fun from_bytes :: "byte list \<Rightarrow> int" where
  "from_bytes [] = 0"
| "from_bytes (b # bs) = uint b + 256 * from_bytes bs"

section \<open>The header of a recording (read\_state.py)\<close>

record header =
  magic_number :: int
  format_version :: int

text \<open>\<open>Header.as_bytes\<close>: the two fields as 8 little-endian bytes each.\<close>

definition as_bytes :: "header \<Rightarrow> error + byte list" where
  "as_bytes h =
     (case to_bytes (magic_number h) 8 of
        Inl e \<Rightarrow> Inl e
      | Inr magic_number_bytes \<Rightarrow>
          (case to_bytes (format_version h) 8 of
             Inl e \<Rightarrow> Inl e
           | Inr format_version_bytes \<Rightarrow> Inr (magic_number_bytes @ format_version_bytes)))"

text \<open>
  Modelled from the spec: \<open>read_u64\<close> is imported from the nanover library and is not
  part of the repository. The spec gives the header fields as \<open>u64-LE\<close>: eight bytes
  are taken from the stream and read as an unsigned little-endian number. An input
  stream is the list of the bytes not yet read; reading returns the bytes that remain.
  The spec does not say what a header shorter than 16 bytes does; here a read that
  meets the end of the stream early is reported as \<open>TruncatedFrame\<close>.
\<close>

definition read_u64 :: "byte list \<Rightarrow> error + (int \<times> byte list)" where
  "read_u64 input_stream =
     (if length input_stream < 8 then Inl TruncatedFrame
      else Inr (from_bytes (take 8 input_stream), drop 8 input_stream))"

definition supported_format_versions :: "int list" where
  "supported_format_versions = [2]"

text \<open>
  \<open>read_header\<close>. The constant \<open>MAGIC_NUMBER\<close> is imported from the nanover library;
  it is the first parameter of the model.
\<close>

definition read_header :: "int \<Rightarrow> byte list \<Rightarrow> error + (header \<times> byte list)" where
  "read_header MAGIC_NUMBER input_stream =
     (case read_u64 input_stream of
        Inl e \<Rightarrow> Inl e
      | Inr (magic, s1) \<Rightarrow>
          if magic \<noteq> MAGIC_NUMBER then Inl InvalidMagicNumber
          else (case read_u64 s1 of
                  Inl e \<Rightarrow> Inl e
                | Inr (version, s2) \<Rightarrow>
                    if version \<notin> set supported_format_versions
                    then Inl (UnsupportedFormatVersion version supported_format_versions)
                    else Inr (\<lparr>magic_number = magic, format_version = version\<rparr>, s2)))"

section \<open>The recorder (recording/nanover-client-recorder.py)\<close>

text \<open>
  An output file is modelled by the list of the chunks written to it, oldest first:
  each \<open>await outfile.write(b)\<close> appends the chunk \<open>b\<close>. The content of the file is
  the concatenation of the chunks. A coroutine that raises returns the file as it is
  at that moment together with the error.
\<close>

type_synonym sink = "byte list list"

text \<open>\<open>write_header\<close>: two writes, the magic number and the version 2. The constant
  \<open>recordings.MAGIC_NUMBER\<close> of the nanover library is the first parameter.\<close>

definition write_header :: "int \<Rightarrow> sink \<Rightarrow> sink \<times> (error + unit)" where
  "write_header MAGIC_NUMBER target_file =
     (case to_bytes MAGIC_NUMBER 8 of
        Inl e \<Rightarrow> (target_file, Inl e)
      | Inr magic_bytes \<Rightarrow>
          (case to_bytes 2 8 of
             Inl e \<Rightarrow> (target_file @ [magic_bytes], Inl e)
           | Inr version_bytes \<Rightarrow> (target_file @ [magic_bytes, version_bytes], Inr ())))"

text \<open>The expression bound to \<open>record\<close> in the body of the loop of \<open>record_stream\<close>.\<close>

definition frame_record :: "int \<Rightarrow> byte list \<Rightarrow> error + byte list" where
  "frame_record elapsed frame_bytes =
     (let frame_size = int (length frame_bytes) in
      case to_bytes elapsed 16 of
        Inl e \<Rightarrow> Inl e
      | Inr elapsed_bytes \<Rightarrow>
          (case to_bytes frame_size 8 of
             Inl e \<Rightarrow> Inl e
           | Inr size_bytes \<Rightarrow> Inr (elapsed_bytes @ size_bytes @ frame_bytes)))"

text \<open>
  The loop \<open>async for frame in stream\<close>. A message of the stream is given by the pair
  of the reading of \<open>perf_counter_\<mu>s()\<close> when it arrives and the bytes of
  \<open>frame.SerializeToString()\<close>; the list holds the messages received until the stream
  ends or the task is cancelled.
\<close>

fun record_frames :: "(int \<times> byte list) list \<Rightarrow> sink \<Rightarrow> int \<Rightarrow> sink \<times> (error + unit)" where
  "record_frames [] outfile start_time = (outfile, Inr ())"
| "record_frames ((now, frame_bytes) # stream) outfile start_time =
     (let elapsed = now - start_time in
      case frame_record elapsed frame_bytes of
        Inl e \<Rightarrow> (outfile, Inl e)
      | Inr record \<Rightarrow> record_frames stream (outfile @ [record]) start_time)"

definition record_stream ::
  "int \<Rightarrow> (int \<times> byte list) list \<Rightarrow> sink \<Rightarrow> int \<Rightarrow> sink \<times> (error + unit)" where
  "record_stream MAGIC_NUMBER stream outfile start_time =
     (case write_header MAGIC_NUMBER outfile of
        (outfile', Inl e) \<Rightarrow> (outfile', Inl e)
      | (outfile', Inr u) \<Rightarrow> record_frames stream outfile' start_time)"

section \<open>Values of the shared state and Python dictionaries\<close>

text \<open>
  A value of the shared state is \<open>None\<close>, a boolean, a number, a string, a dictionary
  with string keys or a list. Numbers are only moved around by the code modelled
  here, never computed with. A Python \<open>dict\<close> keeps its keys in insertion order and
  holds each key once; it is modelled by the list of its items in that order.
\<close>

datatype pyval =
    PNone
  | PBool bool
  | PNumber int
  | PStr string
  | PDict "(string \<times> pyval) list"
  | PList "pyval list"

type_synonym dict = "(string \<times> pyval) list"

text \<open>\<open>d[k] = v\<close>: an existing key keeps its place and takes the new value, a new key
  goes to the end.\<close>

fun dict_set :: "('k \<times> 'v) list \<Rightarrow> 'k \<Rightarrow> 'v \<Rightarrow> ('k \<times> 'v) list" where
  "dict_set [] k v = [(k, v)]"
| "dict_set ((k', v') # d) k v =
     (if k' = k then (k', v) # d else (k', v') # dict_set d k v)"

text \<open>\<open>d.update(other)\<close>: the items of \<open>other\<close> are stored into \<open>d\<close> one after the other.\<close>

definition dict_update :: "('k \<times> 'v) list \<Rightarrow> ('k \<times> 'v) list \<Rightarrow> ('k \<times> 'v) list" where
  "dict_update d other = fold (\<lambda>(k, v) acc. dict_set acc k v) other d"

text \<open>A dictionary comprehension \<open>{k: v for ...}\<close>: the generated items are stored into
  an empty dictionary one after the other, so that of two items with the same key the
  later one gives the value.\<close>

definition dict_of_items :: "('k \<times> 'v) list \<Rightarrow> ('k \<times> 'v) list" where
  "dict_of_items kvs = dict_update [] kvs"

text \<open>
  Modelled from the spec: the class \<open>DictionaryChange\<close> is imported from the nanover
  library. The spec gives a change two parts, \<open>updates\<close> (a mapping from keys to
  values) and \<open>removals\<close> (a set of keys, here the list of its elements in iteration
  order).
\<close>

record change =
  updates :: dict
  removals :: "string list"

section \<open>Aggregation of the changes (read\_state.py)\<close>

text \<open>
  \<open>iter_full_states\<close> is a generator that yields its own accumulator: the dictionary
  bound to \<open>aggregate_state\<close> when \<open>yield\<close> runs is the object that
  \<open>aggregate_state.update(change.updates)\<close> modifies in place when the generator is
  resumed. The dictionaries that the generator creates therefore live in a store, a
  list indexed by address, and the generator yields addresses. Each yield is
  recorded as the timestamp, the address yielded and the store at that moment.
\<close>

type_synonym addr = nat
type_synonym store = "dict list"

fun full_states_loop :: "store \<Rightarrow> addr \<Rightarrow> ('t \<times> change) list \<Rightarrow> ('t \<times> addr \<times> store) list" where
  "full_states_loop h aggregate_state [] = []"
| "full_states_loop h aggregate_state ((timestamp, change) # changes) =
     (let h1 = h[aggregate_state := dict_update (h ! aggregate_state) (updates change)];
          comprehension = filter (\<lambda>(key, value). value \<noteq> PNone) (h1 ! aggregate_state);
          aggregate_state' = length h1;
          h2 = h1 @ [comprehension]
      in (timestamp, aggregate_state', h2) # full_states_loop h2 aggregate_state' changes)"

text \<open>The generator starts with \<open>aggregate_state = {}\<close>, a new dictionary at address 0.\<close>

definition iter_full_states :: "('t \<times> change) list \<Rightarrow> ('t \<times> addr \<times> store) list" where
  "iter_full_states changes = full_states_loop [[]] 0 changes"

text \<open>What a consumer that looks at each item when it is yielded sees (the loop
  \<open>for update in stream: print(update)\<close> of \<open>command_line\<close>).\<close>

definition seen_at_yield :: "('t \<times> addr \<times> store) list \<Rightarrow> ('t \<times> dict) list" where
  "seen_at_yield ys = map (\<lambda>(timestamp, a, h). (timestamp, h ! a)) ys"

text \<open>What a consumer that keeps the yielded items and looks at them once the
  generator is exhausted sees (\<open>list(iter_full_states(changes))\<close>): the same
  addresses, read in the last store.\<close>

definition final_store :: "('t \<times> addr \<times> store) list \<Rightarrow> store" where
  "final_store ys = (if ys = [] then [[]] else snd (snd (last ys)))"

definition seen_after :: "('t \<times> addr \<times> store) list \<Rightarrow> ('t \<times> dict) list" where
  "seen_after ys = map (\<lambda>(timestamp, a, h). (timestamp, final_store ys ! a)) ys"

text \<open>The value most recently stored under each key by a sequence of changes, and the
  restriction of a map to the keys whose value is not \<open>None\<close>.\<close>

definition latest_values :: "('t \<times> change) list \<Rightarrow> (string \<rightharpoonup> pyval)" where
  "latest_values changes = foldl (\<lambda>m (timestamp, c). m ++ map_of (rev (updates c))) Map.empty changes"

definition non_null :: "(string \<rightharpoonup> pyval) \<Rightarrow> (string \<rightharpoonup> pyval)" where
  "non_null m = (\<lambda>k. case m k of None \<Rightarrow> None | Some v \<Rightarrow> if v = PNone then None else Some v)"

section \<open>Renaming of the keys (read\_state.py)\<close>

text \<open>\<open>s.replace(old, new)\<close> for a non-empty \<open>old\<close>: the occurrences of \<open>old\<close> are
  replaced from left to right, without overlap.\<close>

fun replace_occurrences :: "string \<Rightarrow> string \<Rightarrow> string \<Rightarrow> string" where
  "replace_occurrences [] old new = []"
| "replace_occurrences (c # cs) old new =
     (if old \<noteq> [] \<and> take (length old) (c # cs) = old
      then new @ replace_occurrences (drop (length old) (c # cs)) old new
      else c # replace_occurrences cs old new)"

text \<open>\<open>s.replace(old, new)\<close>; with an empty \<open>old\<close>, Python puts \<open>new\<close> before every
  character and at the end.\<close>

definition str_replace :: "string \<Rightarrow> string \<Rightarrow> string \<Rightarrow> string" where
  "str_replace s old new =
     (if old = [] then new @ concat (map (\<lambda>c. c # new) s)
      else replace_occurrences s old new)"

fun recursive_replace :: "pyval \<Rightarrow> string \<Rightarrow> string \<Rightarrow> pyval" where
  "recursive_replace (PDict items) to_replace replace_by =
     PDict (dict_of_items
       (map (\<lambda>(key, value). (str_replace key to_replace replace_by,
                               recursive_replace value to_replace replace_by)) items))"
| "recursive_replace value to_replace replace_by = value"

text \<open>The comprehension that \<open>replace_and_copy_records\<close> assigns to \<open>change.updates\<close>.\<close>

definition replace_updates :: "dict \<Rightarrow> string \<Rightarrow> string \<Rightarrow> dict" where
  "replace_updates items to_replace replace_by =
     dict_of_items
       (map (\<lambda>(key, value). (str_replace key to_replace replace_by,
                               recursive_replace value to_replace replace_by)) items)"

text \<open>
  The renaming as the spec words it, for comparison: the keys of a mapping are
  replaced at every depth, also in the mappings that are elements of an array;
  scalars are left as they are.
\<close>

fun spec_rename :: "pyval \<Rightarrow> string \<Rightarrow> string \<Rightarrow> pyval" where
  "spec_rename (PDict items) from_text to_text =
     PDict (dict_of_items
       (map (\<lambda>(key, value). (str_replace key from_text to_text,
                               spec_rename value from_text to_text)) items))"
| "spec_rename (PList elements) from_text to_text =
     PList (map (\<lambda>value. spec_rename value from_text to_text) elements)"
| "spec_rename value from_text to_text = value"

text \<open>\<open>isinstance(value, dict)\<close>; whether a mapping occurs in a value, at any depth; and
  whether no mapping of a value is inside an array (these are the values on which
  the renaming of the code is compared with the renaming of the spec).\<close>

fun is_dict :: "pyval \<Rightarrow> bool" where
  "is_dict (PDict items) = True"
| "is_dict value = False"

fun contains_dict :: "pyval \<Rightarrow> bool" where
  "contains_dict (PDict items) = True"
| "contains_dict (PList elements) = list_ex contains_dict elements"
| "contains_dict value = False"

fun no_dict_in_list :: "pyval \<Rightarrow> bool" where
  "no_dict_in_list (PDict items) = list_all (\<lambda>(key, value). no_dict_in_list value) items"
| "no_dict_in_list (PList elements) = (\<not> list_ex contains_dict elements)"
| "no_dict_in_list value = True"

text \<open>
  The targets \<open>key, value\<close> of the comprehension assigned to \<open>change.removals\<close> unpack
  each element of the iterated collection. The elements are keys, that is strings: a
  string of two characters unpacks into its two characters, any other string raises
  \<open>ValueError\<close>.
\<close>

fun unpack_key_value :: "string \<Rightarrow> error + (string \<times> string)" where
  "unpack_key_value [a, b] = Inr ([a], [b])"
| "unpack_key_value s = Inl ValueError"

fun replace_removes :: "string list \<Rightarrow> string \<Rightarrow> string \<Rightarrow> error + string list" where
  "replace_removes [] to_replace replace_by = Inr []"
| "replace_removes (element # elements) to_replace replace_by =
     (case unpack_key_value element of
        Inl e \<Rightarrow> Inl e
      | Inr (key, value) \<Rightarrow>
          (case replace_removes elements to_replace replace_by of
             Inl e \<Rightarrow> Inl e
           | Inr keys \<Rightarrow> Inr (str_replace key to_replace replace_by # keys)))"

text \<open>
  The parts of the nanover library that the rewriting uses and the repository does
  not contain are parameters of the model: the constant \<open>MAGIC_NUMBER\<close>; the decoding
  of a payload into a change (\<open>None\<close> when the payload does not parse); the encoding
  of a change, \<open>dictionary_change_to_state_update\<close> followed by the serialisation of
  the message; and what reading the attribute \<open>removes\<close> of a change gives, an error
  or a collection of keys.
\<close>

record nanover =
  lib_magic_number :: int
  lib_decode :: "byte list \<Rightarrow> change option"
  lib_encode :: "change \<Rightarrow> byte list"
  lib_removes :: "change \<Rightarrow> error + string list"

text \<open>
  Modelled from the spec: \<open>write_entry\<close> is imported from the nanover library. The
  spec's frame encoding is the elapsed time as 16 little-endian bytes, the length of
  the payload as 8 little-endian bytes, then the payload, appended to the output
  stream; this is the record that the recorder builds.
\<close>

definition write_entry :: "sink \<Rightarrow> int \<Rightarrow> byte list \<Rightarrow> sink \<times> (error + unit)" where
  "write_entry output_stream timestamp message =
     (case frame_record timestamp message of
        Inl e \<Rightarrow> (output_stream, Inl e)
      | Inr record \<Rightarrow> (output_stream @ [record], Inr ()))"

text \<open>
  Modelled from the spec: \<open>iter_state_recording\<close> is imported from the nanover
  library. The spec's reader validates the header once and then decodes frames until
  the stream ends: no byte left before a frame is the normal end, a frame cut short
  is \<open>TruncatedFrame\<close>, a payload that does not parse is \<open>DecodeFailure\<close>. A lazy
  sequence is given by the items it yields and the error that ends it, if any.
\<close>

function iter_frames :: "byte list \<Rightarrow> (int \<times> byte list) list \<times> error option" where
  "iter_frames input_stream =
     (if input_stream = [] then ([], None)
      else if length input_stream < 24 then ([], Some TruncatedFrame)
      else
        let elapsed_time = from_bytes (take 16 input_stream);
            payload_length = nat (from_bytes (take 8 (drop 16 input_stream)));
            rest = drop 24 input_stream
        in if length rest < payload_length then ([], Some TruncatedFrame)
           else (case iter_frames (drop payload_length rest) of
                   (frames, e) \<Rightarrow> ((elapsed_time, take payload_length rest) # frames, e)))"
  by pat_completeness auto
termination
  by (relation "measure length") auto

declare iter_frames.simps [simp del]

fun decode_frames ::
  "(byte list \<Rightarrow> change option) \<Rightarrow> (int \<times> byte list) list \<Rightarrow> error option
     \<Rightarrow> (int \<times> change) list \<times> error option" where
  "decode_frames decode [] e = ([], e)"
| "decode_frames decode ((timestamp, payload) # frames) e =
     (case decode payload of
        None \<Rightarrow> ([], Some DecodeFailure)
      | Some change \<Rightarrow>
          (case decode_frames decode frames e of
             (changes, e') \<Rightarrow> ((timestamp, change) # changes, e')))"

definition iter_state_recording ::
  "nanover \<Rightarrow> byte list \<Rightarrow> (int \<times> change) list \<times> error option" where
  "iter_state_recording lib input_stream =
     (case read_header (lib_magic_number lib) input_stream of
        Inl e \<Rightarrow> ([], Some e)
      | Inr (h, rest) \<Rightarrow>
          (case iter_frames rest of (frames, e) \<Rightarrow> decode_frames (lib_decode lib) frames e))"

text \<open>The body of the loop of \<open>replace_and_copy_records\<close> for one item. The two
  assignments to attributes of the change are taken to succeed.\<close>

definition replace_and_copy_record ::
  "nanover \<Rightarrow> sink \<Rightarrow> int \<Rightarrow> change \<Rightarrow> string \<Rightarrow> string \<Rightarrow> sink \<times> (error + unit)" where
  "replace_and_copy_record lib output_stream timestamp change to_replace replace_by =
     (let change1 = change\<lparr>updates := replace_updates (updates change) to_replace replace_by\<rparr>
      in case lib_removes lib change1 of
           Inl e \<Rightarrow> (output_stream, Inl e)
         | Inr removes \<Rightarrow>
             (case replace_removes removes to_replace replace_by of
                Inl e \<Rightarrow> (output_stream, Inl e)
              | Inr keys \<Rightarrow>
                  write_entry output_stream timestamp
                    (lib_encode lib (change1\<lparr>removals := keys\<rparr>))))"

text \<open>The loop over the items of the lazy sequence: an error of the body ends it, and
  so does the error that ends the sequence.\<close>

fun copy_records ::
  "nanover \<Rightarrow> (int \<times> change) list \<Rightarrow> error option \<Rightarrow> sink \<Rightarrow> string \<Rightarrow> string
     \<Rightarrow> sink \<times> (error + unit)" where
  "copy_records lib [] None output_stream to_replace replace_by = (output_stream, Inr ())"
| "copy_records lib [] (Some e) output_stream to_replace replace_by = (output_stream, Inl e)"
| "copy_records lib ((timestamp, change) # changes) e output_stream to_replace replace_by =
     (case replace_and_copy_record lib output_stream timestamp change to_replace replace_by of
        (output_stream', Inl e') \<Rightarrow> (output_stream', Inl e')
      | (output_stream', Inr u) \<Rightarrow>
          copy_records lib changes e output_stream' to_replace replace_by)"

definition replace_and_copy_records ::
  "nanover \<Rightarrow> byte list \<Rightarrow> sink \<Rightarrow> string \<Rightarrow> string \<Rightarrow> sink \<times> (error + unit)" where
  "replace_and_copy_records lib input_stream output_stream to_replace replace_by =
     (case iter_state_recording lib input_stream of
        (changes, e) \<Rightarrow> copy_records lib changes e output_stream to_replace replace_by)"

definition replace_narupa :: "nanover \<Rightarrow> byte list \<Rightarrow> sink \<Rightarrow> sink \<times> (error + unit)" where
  "replace_narupa lib input_stream output_stream =
     replace_and_copy_records lib input_stream output_stream ''narupa'' ''nanover''"

text \<open>\<open>copy_header\<close>, which no function of the module calls: it returns the input
  stream after the header, the output stream with the header written, and the
  header.\<close>

definition copy_header ::
  "int \<Rightarrow> byte list \<Rightarrow> sink \<Rightarrow> error + (byte list \<times> sink \<times> header)" where
  "copy_header MAGIC_NUMBER input_stream output_stream =
     (case read_header MAGIC_NUMBER input_stream of
        Inl e \<Rightarrow> Inl e
      | Inr (h, rest) \<Rightarrow>
          (case as_bytes h of
             Inl e \<Rightarrow> Inl e
           | Inr bs \<Rightarrow> Inr (rest, output_stream @ [bs], h)))"

text \<open>The branch \<open>args.narupa is not None\<close> of \<open>command_line\<close>: the output file is
  opened for writing, hence empty, and its content at the end is what
  \<open>replace_narupa\<close> wrote.\<close>

definition command_line_narupa :: "nanover \<Rightarrow> byte list \<Rightarrow> byte list \<times> (error + unit)" where
  "command_line_narupa lib input_file =
     (case replace_narupa lib input_file [] of (writer, r) \<Rightarrow> (concat writer, r))"

section \<open>Facts about the byte conversions\<close>

lemma length_le_bytes: "length (le_bytes len n) = len"
  by (induction len arbitrary: n) simp_all

lemma uint_byte_of_mod: "uint (word_of_int (n mod 256) :: byte) = n mod 256"
  by (simp add: uint_word_of_int)

lemma from_bytes_le_bytes: "from_bytes (le_bytes len n) = n mod 256 ^ len"
proof (induction len arbitrary: n)
  case 0
  show ?case by simp
next
  case (Suc len)
  have "n mod 256 + 256 * (n div 256 mod 256 ^ len) = n mod (256 * 256 ^ len)"
    using zmod_zmult2_eq [of "256 ^ len" n 256] by simp
  with Suc show ?case by (simp add: uint_byte_of_mod)
qed

lemma length_to_bytes: "to_bytes n len = Inr bs \<Longrightarrow> length bs = len"
  by (auto simp: to_bytes_def length_le_bytes split: if_splits)

lemma read_u64_append:
  "length bs = 8 \<Longrightarrow> read_u64 (bs @ rest) = Inr (from_bytes bs, rest)"
  by (simp add: read_u64_def)

lemma as_bytes_in_range:
  assumes "0 \<le> magic_number h" "magic_number h < 2 ^ 64"
      and "0 \<le> format_version h" "format_version h < 2 ^ 64"
  shows "as_bytes h = Inr (le_bytes 8 (magic_number h) @ le_bytes 8 (format_version h))"
  using assms by (simp add: as_bytes_def to_bytes_def)

lemma read_header_le_bytes:
  assumes "0 \<le> m" "m < 2 ^ 64" "0 \<le> v" "v < 2 ^ 64"
  shows "read_header M (le_bytes 8 m @ le_bytes 8 v @ rest) =
           (if m \<noteq> M then Inl InvalidMagicNumber
            else if v \<notin> set supported_format_versions
            then Inl (UnsupportedFormatVersion v supported_format_versions)
            else Inr (\<lparr>magic_number = m, format_version = v\<rparr>, rest))"
proof -
  have m: "from_bytes (le_bytes 8 m) = m"
    using assms by (simp add: from_bytes_le_bytes)
  have v: "from_bytes (le_bytes 8 v) = v"
    using assms by (simp add: from_bytes_le_bytes)
  have r1: "read_u64 (le_bytes 8 m @ le_bytes 8 v @ rest) = Inr (m, le_bytes 8 v @ rest)"
    using read_u64_append [of "le_bytes 8 m" "le_bytes 8 v @ rest"]
    by (simp add: length_le_bytes m)
  have r2: "read_u64 (le_bytes 8 v @ rest) = Inr (v, rest)"
    using read_u64_append [of "le_bytes 8 v" rest]
    by (simp add: length_le_bytes v)
  show ?thesis
    by (simp add: read_header_def r1 r2)
qed

section \<open>The header codec\<close>

lemma read_header_16_eq:
  assumes "length bs = 16"
  shows "read_header M bs =
           (if from_bytes (take 8 bs) \<noteq> M then Inl InvalidMagicNumber
            else if from_bytes (drop 8 bs) \<noteq> 2
            then Inl (UnsupportedFormatVersion (from_bytes (drop 8 bs)) [2])
            else Inr (\<lparr>magic_number = M, format_version = 2\<rparr>, []))"
  using assms by (simp add: read_header_def read_u64_def supported_format_versions_def)

text \<open>
  Claim C5. Let \<open>h\<close> be a header whose magic number is the constant \<open>MAGIC_NUMBER\<close>
  (a 64-bit constant, written \<open>M\<close>) and whose format version is in the supported set
  \<open>{2}\<close>. Then \<open>Header.as_bytes\<close> succeeds, produces 16 bytes, and \<open>read_header\<close> on
  those bytes succeeds, returns a header with the fields of \<open>h\<close> and leaves nothing
  unread.
\<close>

theorem read_header_as_bytes:
  assumes "magic_number h = M" and "format_version h \<in> set supported_format_versions"
      and "0 \<le> M" and "M < 2 ^ 64"
  shows "\<exists>bs. as_bytes h = Inr bs \<and> length bs = 16 \<and> read_header M bs = Inr (h, [])"
proof -
  have v: "format_version h = 2"
    using assms(2) by (simp add: supported_format_versions_def)
  have enc: "as_bytes h = Inr (le_bytes 8 M @ le_bytes 8 2)"
    using as_bytes_in_range [of h] assms(1,3,4) v by simp
  have dec: "read_header M (le_bytes 8 M @ le_bytes 8 2 @ []) =
               Inr (\<lparr>magic_number = M, format_version = 2\<rparr>, [])"
    using read_header_le_bytes [of M 2 M "[]"] assms(3,4)
    by (simp add: supported_format_versions_def)
  have h: "h = \<lparr>magic_number = M, format_version = 2\<rparr>"
    using assms(1) v by simp
  show ?thesis
    using enc dec h by (simp add: length_le_bytes)
qed

theorem read_header_as_bytes_witness:
  "as_bytes \<lparr>magic_number = 6661355757386708963, format_version = 2\<rparr>
     = Inr [227, 183, 137, 153, 196, 227, 113, 92, 2, 0, 0, 0, 0, 0, 0, 0]
   \<and> read_header 6661355757386708963 [227, 183, 137, 153, 196, 227, 113, 92, 2, 0, 0, 0, 0, 0, 0, 0]
     = Inr (\<lparr>magic_number = 6661355757386708963, format_version = 2\<rparr>, [])"
proof -
  have e: "as_bytes \<lparr>magic_number = 6661355757386708963, format_version = 2\<rparr>
     = Inr [227, 183, 137, 153, 196, 227, 113, 92, 2, 0, 0, 0, 0, 0, 0, 0]"
    by code_simp
  from read_header_as_bytes [of "\<lparr>magic_number = 6661355757386708963, format_version = 2\<rparr>" 6661355757386708963]
  show ?thesis unfolding e
    by (simp add: supported_format_versions_def)
qed

text \<open>
  Claim C6. On every input of 16 bytes, \<open>read_header\<close> fails with
  \<open>InvalidMagicNumber\<close> exactly when the first 8 bytes, read as a little-endian
  unsigned number, differ from the constant; when they are equal to it, it fails with
  \<open>UnsupportedFormatVersion(got, (2,))\<close> exactly when the version field \<open>got\<close> is not 2
  (so version 99 fails with \<open>UnsupportedFormatVersion(99, (2,))\<close>); it succeeds
  exactly when the magic number matches and the version is 2; and it fails in no
  other way.
\<close>

theorem read_header_errors:
  assumes "length bs = 16"
  shows "(read_header M bs = Inl InvalidMagicNumber \<longleftrightarrow> from_bytes (take 8 bs) \<noteq> M)
     \<and> (from_bytes (take 8 bs) = M \<longrightarrow>
          (read_header M bs = Inl (UnsupportedFormatVersion (from_bytes (drop 8 bs)) [2])
             \<longleftrightarrow> from_bytes (drop 8 bs) \<noteq> 2))
     \<and> (from_bytes (take 8 bs) = M \<and> from_bytes (drop 8 bs) = 99 \<longrightarrow>
          read_header M bs = Inl (UnsupportedFormatVersion 99 [2]))
     \<and> ((\<exists>r. read_header M bs = Inr r) \<longleftrightarrow>
          from_bytes (take 8 bs) = M \<and> from_bytes (drop 8 bs) = 2)
     \<and> (\<forall>e. read_header M bs = Inl e \<longrightarrow>
          e = InvalidMagicNumber \<or> e = UnsupportedFormatVersion (from_bytes (drop 8 bs)) [2])"
  by (simp add: read_header_16_eq [OF assms])

theorem read_header_errors_witness:
  "length [227, 183, 137, 153, 196, 227, 113, 92, 99, 0, 0, 0, 0, 0, 0, 0 :: byte] = 16
   \<and> read_header 6661355757386708963 [227, 183, 137, 153, 196, 227, 113, 92, 99, 0, 0, 0, 0, 0, 0, 0]
       = Inl (UnsupportedFormatVersion 99 [2])
   \<and> read_header 6661355757386708963 [227, 183, 137, 153, 196, 227, 113, 92, 2, 0, 0, 0, 0, 0, 0, 0]
       = Inr (\<lparr>magic_number = 6661355757386708963, format_version = 2\<rparr>, [])
   \<and> read_header 6661355757386708963 [0, 183, 137, 153, 196, 227, 113, 92, 2, 0, 0, 0, 0, 0, 0, 0]
       = Inl InvalidMagicNumber"
proof -
  have l: "length [227, 183, 137, 153, 196, 227, 113, 92, 99, 0, 0, 0, 0, 0, 0, 0 :: byte] = 16"
    by simp
  have a: "read_header 6661355757386708963 [227, 183, 137, 153, 196, 227, 113, 92, 99, 0, 0, 0, 0, 0, 0, 0]
       = Inl (UnsupportedFormatVersion 99 [2])"
    using read_header_errors [OF l, of 6661355757386708963] by simp
  have l2: "length [227, 183, 137, 153, 196, 227, 113, 92, 2, 0, 0, 0, 0, 0, 0, 0 :: byte] = 16"
    by simp
  have b: "read_header 6661355757386708963 [227, 183, 137, 153, 196, 227, 113, 92, 2, 0, 0, 0, 0, 0, 0, 0]
       = Inr (\<lparr>magic_number = 6661355757386708963, format_version = 2\<rparr>, [])"
    by code_simp
  have l3: "length [0, 183, 137, 153, 196, 227, 113, 92, 2, 0, 0, 0, 0, 0, 0, 0 :: byte] = 16"
    by simp
  have c: "read_header 6661355757386708963 [0, 183, 137, 153, 196, 227, 113, 92, 2, 0, 0, 0, 0, 0, 0, 0]
       = Inl InvalidMagicNumber"
    using read_header_errors [OF l3, of 6661355757386708963] by simp
  show ?thesis using l a b c by simp
qed

section \<open>The frames and the header written by the recorder\<close>

lemma frame_record_in_range:
  assumes "0 \<le> t" "t < 2 ^ 128" "length p < 2 ^ 64"
  shows "frame_record t p = Inr (le_bytes 16 t @ le_bytes 8 (int (length p)) @ p)"
proof -
  have "int (length p) < 2 ^ 64"
    using assms(3) by simp
  then show ?thesis
    using assms(1,2) by (simp add: frame_record_def to_bytes_def)
qed

text \<open>
  Claim C7. For an elapsed time \<open>t\<close> with \<open>0 \<le> t < 2^128\<close> and a payload \<open>p\<close> (a Python
  \<open>bytes\<close> value has fewer than \<open>2^63\<close> bytes; the theorem asks for fewer than \<open>2^64\<close>),
  the body of the loop of \<open>record_stream\<close> writes one chunk \<open>r\<close> of exactly
  \<open>24 + len(p)\<close> bytes: the 16 little-endian bytes of \<open>t\<close>, then the 8 little-endian
  bytes of \<open>len(p)\<close>, then \<open>p\<close>.
\<close>

theorem record_stream_frame_layout:
  assumes "0 \<le> t" and "t < 2 ^ 128" and "length p < 2 ^ 64" and "t = now - start_time"
  shows "\<exists>r. frame_record t p = Inr r
           \<and> record_frames ((now, p) # stream) outfile start_time
               = record_frames stream (outfile @ [r]) start_time
           \<and> length r = 24 + length p
           \<and> r = le_bytes 16 t @ le_bytes 8 (int (length p)) @ p
           \<and> from_bytes (take 16 r) = t
           \<and> from_bytes (take 8 (drop 16 r)) = int (length p)
           \<and> drop 24 r = p"
proof -
  let ?r = "le_bytes 16 t @ le_bytes 8 (int (length p)) @ p"
  have r: "frame_record t p = Inr ?r"
    using assms(1-3) by (rule frame_record_in_range)
  have len: "int (length p) < 2 ^ 64"
    using assms(3) by simp
  have t: "from_bytes (take 16 ?r) = t"
    using assms(1,2) by (simp add: length_le_bytes from_bytes_le_bytes)
  have s: "from_bytes (take 8 (drop 16 ?r)) = int (length p)"
    using len by (simp add: length_le_bytes from_bytes_le_bytes)
  have step: "record_frames ((now, p) # stream) outfile start_time
               = record_frames stream (outfile @ [?r]) start_time"
    using r assms(4) by simp
  have l: "length ?r = 24 + length p" and d: "drop 24 ?r = p"
    by (simp_all add: length_le_bytes)
  show ?thesis
    using r t s step l d by blast
qed



theorem record_stream_frame_layout_witness:
  "frame_record 1000 [10, 20, 30] =
     Inr [232, 3, 0, 0, 0, 0, 0, 0, 0, 0, 0, 0, 0, 0, 0, 0, 3, 0, 0, 0, 0, 0, 0, 0, 10, 20, 30]
   \<and> record_frames [(1500, [10, 20, 30])] [] 500 =
     ([[232, 3, 0, 0, 0, 0, 0, 0, 0, 0, 0, 0, 0, 0, 0, 0, 3, 0, 0, 0, 0, 0, 0, 0, 10, 20, 30]], Inr ())"
proof -
  have e: "le_bytes 16 1000 @ le_bytes 8 (int (length [10, 20, 30 :: byte])) @ [10, 20, 30]
         = [232, 3, 0, 0, 0, 0, 0, 0, 0, 0, 0, 0, 0, 0, 0, 0, 3, 0, 0, 0, 0, 0, 0, 0, 10, 20, 30]"
    by code_simp
  have h1: "(0::int) \<le> 1000" and h2: "(1000::int) < 2 ^ 128" and h4: "(1000::int) = 1500 - 500"
    by simp_all
  have l3: "length [10, 20, 30 :: byte] = 3"
    by simp
  have h3: "length [10, 20, 30 :: byte] < 2 ^ 64"
    unfolding l3 by simp
  from record_stream_frame_layout [OF h1 h2 h3 h4, of "[]" "[]"]
  obtain r where r: "frame_record 1000 [10, 20, 30] = Inr r"
    and s: "record_frames [(1500, [10, 20, 30])] [] 500 = record_frames [] ([] @ [r]) 500"
    and v: "r = le_bytes 16 1000 @ le_bytes 8 (int (length [10, 20, 30 :: byte])) @ [10, 20, 30]"
    by blast
  show ?thesis
    using r s v e by simp
qed

lemma frame_record_length: "frame_record t p = Inr r \<Longrightarrow> 24 \<le> length r"
  by (auto simp: frame_record_def Let_def dest!: length_to_bytes split: sum.splits)

lemma record_frames_writes:
  "\<exists>frames. fst (record_frames stream outfile start_time) = outfile @ frames
     \<and> length frames \<le> length stream
     \<and> list_all2 (\<lambda>(now, p) r. frame_record (now - start_time) p = Inr r)
          (take (length frames) stream) frames
     \<and> (\<forall>r \<in> set frames. 24 \<le> length r)
     \<and> (snd (record_frames stream outfile start_time) = Inr () \<longrightarrow>
          length frames = length stream)"
proof (induction stream arbitrary: outfile)
  case Nil
  show ?case by simp
next
  case (Cons m stream)
  obtain now p where m: "m = (now, p)" by (cases m)
  show ?case
  proof (cases "frame_record (now - start_time) p")
    case (Inl e)
    then show ?thesis using m by simp
  next
    case (Inr r)
    from Cons.IH [of "outfile @ [r]"] obtain frames where
      f: "fst (record_frames stream (outfile @ [r]) start_time) = (outfile @ [r]) @ frames"
      and l: "length frames \<le> length stream"
      and a: "list_all2 (\<lambda>(now, p) r. frame_record (now - start_time) p = Inr r)
          (take (length frames) stream) frames"
      and big: "\<forall>r \<in> set frames. 24 \<le> length r"
      and d: "snd (record_frames stream (outfile @ [r]) start_time) = Inr () \<longrightarrow>
          length frames = length stream"
      by blast
    have "fst (record_frames (m # stream) outfile start_time) = outfile @ (r # frames)"
      using m Inr f by simp
    moreover have "length (r # frames) \<le> length (m # stream)"
      using l by simp
    moreover have "list_all2 (\<lambda>(now, p) r. frame_record (now - start_time) p = Inr r)
          (take (length (r # frames)) (m # stream)) (r # frames)"
      using a m Inr by simp
    moreover have "\<forall>x \<in> set (r # frames). 24 \<le> length x"
      using big frame_record_length [OF Inr] by simp
    moreover have "snd (record_frames (m # stream) outfile start_time) = Inr () \<longrightarrow>
          length (r # frames) = length (m # stream)"
      using d m Inr by simp
    ultimately show ?thesis by blast
  qed
qed

lemma write_header_in_range:
  assumes "0 \<le> M" "M < 2 ^ 64"
  shows "write_header M target_file = (target_file @ [le_bytes 8 M, le_bytes 8 2], Inr ())"
  using assms by (simp add: write_header_def to_bytes_def)

text \<open>
  Claim C9. For every stream of messages and every output file, \<open>record_stream\<close>
  first appends the two header chunks (the 8 bytes of \<open>MAGIC_NUMBER\<close>, then the 8
  bytes of version 2, together the 16 bytes of \<open>Header.as_bytes\<close>), and every chunk
  it appends after them is the frame record of a message of the stream, in order
  (all of them when the coroutine ends without an error). A frame record has at
  least 24 bytes, so the header chunks are written once only. The bytes written
  decode with \<open>read_header\<close> to the header \<open>(MAGIC_NUMBER, 2)\<close>, leaving the frames
  unread. The recorder's constant and the reader's constant are taken to be the same
  64-bit number \<open>M\<close>.
\<close>

theorem record_stream_header_once:
  assumes "0 \<le> M" and "M < 2 ^ 64"
  shows "\<exists>frames.
           fst (record_stream M stream outfile start_time)
             = outfile @ [le_bytes 8 M, le_bytes 8 2] @ frames
         \<and> length (le_bytes 8 M @ le_bytes 8 2) = 16
         \<and> as_bytes \<lparr>magic_number = M, format_version = 2\<rparr> = Inr (le_bytes 8 M @ le_bytes 8 2)
         \<and> length frames \<le> length stream
         \<and> list_all2 (\<lambda>(now, p) r. frame_record (now - start_time) p = Inr r)
              (take (length frames) stream) frames
         \<and> (\<forall>r \<in> set frames. 24 \<le> length r)
         \<and> (snd (record_stream M stream outfile start_time) = Inr () \<longrightarrow>
              length frames = length stream)
         \<and> read_header M (concat ([le_bytes 8 M, le_bytes 8 2] @ frames))
             = Inr (\<lparr>magic_number = M, format_version = 2\<rparr>, concat frames)"
proof -
  let ?hdr = "outfile @ [le_bytes 8 M, le_bytes 8 2]"
  have rs: "record_stream M stream outfile start_time = record_frames stream ?hdr start_time"
    using assms by (simp add: record_stream_def write_header_in_range)
  from record_frames_writes [of stream ?hdr start_time] obtain frames where
      f: "fst (record_frames stream ?hdr start_time) = ?hdr @ frames"
      and l: "length frames \<le> length stream"
      and a: "list_all2 (\<lambda>(now, p) r. frame_record (now - start_time) p = Inr r)
          (take (length frames) stream) frames"
      and big: "\<forall>r \<in> set frames. 24 \<le> length r"
      and d: "snd (record_frames stream ?hdr start_time) = Inr () \<longrightarrow>
          length frames = length stream"
    by blast
  have dec: "read_header M (concat ([le_bytes 8 M, le_bytes 8 2] @ frames))
             = Inr (\<lparr>magic_number = M, format_version = 2\<rparr>, concat frames)"
    using read_header_le_bytes [of M 2 M "concat frames"] assms
    by (simp add: supported_format_versions_def)
  have enc: "as_bytes \<lparr>magic_number = M, format_version = 2\<rparr> = Inr (le_bytes 8 M @ le_bytes 8 2)"
    using as_bytes_in_range [of "\<lparr>magic_number = M, format_version = 2\<rparr>"] assms by simp
  have len: "length (le_bytes 8 M @ le_bytes 8 2) = 16"
    by (simp add: length_le_bytes)
  have f': "fst (record_frames stream ?hdr start_time)
             = outfile @ [le_bytes 8 M, le_bytes 8 2] @ frames"
    using f by simp
  show ?thesis
    unfolding rs
    using f' l a d big dec enc len by blast
qed


theorem record_stream_header_once_witness:
  "record_stream 6661355757386708963 [(1500, [10, 20, 30])] [] 500 =
     ([[227, 183, 137, 153, 196, 227, 113, 92], [2, 0, 0, 0, 0, 0, 0, 0],
       [232, 3, 0, 0, 0, 0, 0, 0, 0, 0, 0, 0, 0, 0, 0, 0, 3, 0, 0, 0, 0, 0, 0, 0, 10, 20, 30]],
      Inr ())
   \<and> read_header 6661355757386708963
       ([227, 183, 137, 153, 196, 227, 113, 92] @ [2, 0, 0, 0, 0, 0, 0, 0] @
        [232, 3, 0, 0, 0, 0, 0, 0, 0, 0, 0, 0, 0, 0, 0, 0, 3, 0, 0, 0, 0, 0, 0, 0, 10, 20, 30])
     = Inr (\<lparr>magic_number = 6661355757386708963, format_version = 2\<rparr>,
        [232, 3, 0, 0, 0, 0, 0, 0, 0, 0, 0, 0, 0, 0, 0, 0, 3, 0, 0, 0, 0, 0, 0, 0, 10, 20, 30])"
proof -
  let ?M = "6661355757386708963 :: int"
  have h1: "0 \<le> ?M" and h2: "?M < 2 ^ 64"
    by simp_all
  have run: "record_stream ?M [(1500, [10, 20, 30])] [] 500 =
     ([[227, 183, 137, 153, 196, 227, 113, 92], [2, 0, 0, 0, 0, 0, 0, 0],
       [232, 3, 0, 0, 0, 0, 0, 0, 0, 0, 0, 0, 0, 0, 0, 0, 3, 0, 0, 0, 0, 0, 0, 0, 10, 20, 30]],
      Inr ())"
    by code_simp
  have m: "le_bytes 8 ?M = [227, 183, 137, 153, 196, 227, 113, 92]"
    and v: "le_bytes 8 2 = [2, 0, 0, 0, 0, 0, 0, 0]"
    by code_simp+
  from record_stream_header_once [OF h1 h2, of "[(1500, [10, 20, 30])]" "[]" 500]
  obtain frames where
    f: "fst (record_stream ?M [(1500, [10, 20, 30])] [] 500)
          = [] @ [le_bytes 8 ?M, le_bytes 8 2] @ frames"
    and d: "read_header ?M (concat ([le_bytes 8 ?M, le_bytes 8 2] @ frames))
             = Inr (\<lparr>magic_number = ?M, format_version = 2\<rparr>, concat frames)"
    by blast
  from f have "frames =
      [[232, 3, 0, 0, 0, 0, 0, 0, 0, 0, 0, 0, 0, 0, 0, 0, 3, 0, 0, 0, 0, 0, 0, 0, 10, 20, 30]]"
    unfolding run m v by simp
  with d show ?thesis
    unfolding m v using run by simp
qed

section \<open>Dictionaries as finite maps\<close>

lemma map_of_dict_set: "map_of (dict_set d k v) = (map_of d)(k \<mapsto> v)"
  by (induction d) (auto simp: fun_eq_iff)

lemma keys_dict_set: "fst ` set (dict_set d k v) = insert k (fst ` set d)"
proof -
  have "dom (map_of (dict_set d k v)) = insert k (dom (map_of d))"
    by (simp add: map_of_dict_set)
  then show ?thesis
    by (simp add: dom_map_of_conv_image_fst)
qed

lemma distinct_dict_set:
  "distinct (map fst d) \<Longrightarrow> distinct (map fst (dict_set d k v))"
proof (induction d)
  case Nil
  show ?case by simp
next
  case (Cons x d)
  obtain k' v' where x: "x = (k', v')" by (cases x)
  show ?case
  proof (cases "k' = k")
    case True
    with Cons.prems x show ?thesis by simp
  next
    case False
    have "k' \<notin> fst ` set (dict_set d k v)"
      using Cons.prems x False by (simp add: keys_dict_set)
    with Cons x False show ?thesis by simp
  qed
qed

lemma map_of_dict_update:
  "map_of (dict_update d other) = map_of d ++ map_of (rev other)"
  unfolding dict_update_def
proof (induction other arbitrary: d)
  case Nil
  show ?case by simp
next
  case (Cons x other)
  obtain k v where x: "x = (k, v)" by (cases x)
  have "map_of (fold (\<lambda>(k, v) acc. dict_set acc k v) other (dict_set d k v))
          = map_of (dict_set d k v) ++ map_of (rev other)"
    by (rule Cons.IH)
  also have "\<dots> = (map_of d ++ [k \<mapsto> v]) ++ map_of (rev other)"
    by (simp add: map_of_dict_set)
  also have "\<dots> = map_of d ++ map_of (rev (x # other))"
    using x by (simp add: map_add_assoc)
  finally show ?case using x by simp
qed

lemma distinct_dict_update:
  "distinct (map fst d) \<Longrightarrow> distinct (map fst (dict_update d other))"
  unfolding dict_update_def
  by (induction other arbitrary: d) (auto simp: distinct_dict_set)

lemma map_of_filter_non_null:
  "distinct (map fst d) \<Longrightarrow>
     map_of (filter (\<lambda>(key, value). value \<noteq> PNone) d) = non_null (map_of d)"
proof (induction d)
  case Nil
  show ?case by (simp add: non_null_def)
next
  case (Cons x d)
  obtain k v where x: "x = (k, v)" by (cases x)
  have ih: "map_of (filter (\<lambda>(key, value). value \<noteq> PNone) d) = non_null (map_of d)"
    using Cons by simp
  have nk: "map_of d k = None"
    using Cons.prems x by (simp add: map_of_eq_None_iff)
  show ?case
    using x ih nk by (auto simp: non_null_def fun_eq_iff)
qed

lemma distinct_filter_keys:
  "distinct (map fst d) \<Longrightarrow> distinct (map fst (filter P d))"
  by (rule distinct_map_filter)

lemma non_null_add: "non_null (non_null m ++ u) = non_null (m ++ u)"
  by (auto simp: non_null_def fun_eq_iff map_add_def split: option.splits)

lemma latest_values_snoc:
  "latest_values (cs @ [(t, c)]) = latest_values cs ++ map_of (rev (updates c))"
  by (simp add: latest_values_def)

lemma full_states_loop_Cons:
  assumes "a < length h"
  shows "full_states_loop h a ((t, c) # cs) =
           (t, length h,
            h[a := dict_update (h ! a) (updates c)]
              @ [filter (\<lambda>(key, value). value \<noteq> PNone) (dict_update (h ! a) (updates c))])
           # full_states_loop
               (h[a := dict_update (h ! a) (updates c)]
                  @ [filter (\<lambda>(key, value). value \<noteq> PNone) (dict_update (h ! a) (updates c))])
               (length h) cs"
  using assms by (simp add: Let_def)

lemma length_full_states_loop: "length (full_states_loop h a cs) = length cs"
  by (induction cs arbitrary: h a) (auto simp: Let_def)

lemma timestamps_full_states_loop: "map fst (full_states_loop h a cs) = map fst cs"
  by (induction cs arbitrary: h a) (auto simp: Let_def)

lemma seen_at_yield_Cons:
  assumes "a < length h"
  shows "seen_at_yield (full_states_loop h a ((t, c) # cs)) =
           (t, filter (\<lambda>(key, value). value \<noteq> PNone) (dict_update (h ! a) (updates c)))
           # seen_at_yield (full_states_loop
               (h[a := dict_update (h ! a) (updates c)]
                  @ [filter (\<lambda>(key, value). value \<noteq> PNone) (dict_update (h ! a) (updates c))])
               (length h) cs)"
  unfolding full_states_loop_Cons [OF assms]
  by (simp add: seen_at_yield_def nth_append)

lemma last_store_cell:
  "(h[a := d] @ [f]) ! length h = f"
  by (simp add: nth_append)

lemma seen_at_yield_step:
  assumes "a < length h" and "i < length cs"
  shows "snd (seen_at_yield (full_states_loop h a cs) ! i) =
           filter (\<lambda>(key, value). value \<noteq> PNone)
             (dict_update
                (if i = 0 then h ! a
                 else snd (seen_at_yield (full_states_loop h a cs) ! (i - 1)))
                (updates (snd (cs ! i))))"
  using assms
proof (induction cs arbitrary: h a i)
  case Nil
  then show ?case by simp
next
  case (Cons x cs)
  obtain t c where x: "x = (t, c)" by (cases x)
  let ?F = "filter (\<lambda>(key, value). value \<noteq> PNone) (dict_update (h ! a) (updates c))"
  let ?h2 = "h[a := dict_update (h ! a) (updates c)] @ [?F]"
  note unf = seen_at_yield_Cons [OF Cons.prems(1), of t c cs]
  show ?case
  proof (cases i)
    case 0
    then show ?thesis unfolding x unf by simp
  next
    case (Suc j)
    have j: "j < length cs" using Cons.prems(2) Suc by simp
    have a': "length h < length ?h2" by simp
    note ih = Cons.IH [OF a' j]
    have cell: "?h2 ! length h = ?F" by (rule last_store_cell)
    show ?thesis
    proof (cases j)
      case 0
      with ih cell Suc show ?thesis unfolding x unf by simp
    next
      case (Suc j')
      with ih \<open>i = Suc j\<close> show ?thesis unfolding x unf by simp
    qed
  qed
qed

lemma seen_at_yield_latest:
  assumes "a < length h" and "distinct (map fst (h ! a))"
      and "map_of (h ! a) = non_null (latest_values pre)" and "i < length cs"
  shows "distinct (map fst (snd (seen_at_yield (full_states_loop h a cs) ! i)))
       \<and> map_of (snd (seen_at_yield (full_states_loop h a cs) ! i))
           = non_null (latest_values (pre @ take (Suc i) cs))"
  using assms
proof (induction cs arbitrary: h a pre i)
  case Nil
  then show ?case by simp
next
  case (Cons x cs)
  obtain t c where x: "x = (t, c)" by (cases x)
  let ?U = "dict_update (h ! a) (updates c)"
  let ?F = "filter (\<lambda>(key, value). value \<noteq> PNone) ?U"
  let ?h2 = "h[a := ?U] @ [?F]"
  note unf = seen_at_yield_Cons [OF Cons.prems(1), of t c cs]
  have dU: "distinct (map fst ?U)"
    using Cons.prems(2) by (rule distinct_dict_update)
  have dF: "distinct (map fst ?F)"
    using dU by (rule distinct_filter_keys)
  have "map_of ?F = non_null (map_of ?U)"
    using dU by (rule map_of_filter_non_null)
  also have "\<dots> = non_null (non_null (latest_values pre) ++ map_of (rev (updates c)))"
    using Cons.prems(3) by (simp add: map_of_dict_update)
  also have "\<dots> = non_null (latest_values (pre @ [(t, c)]))"
    by (simp add: non_null_add latest_values_snoc)
  finally have mF: "map_of ?F = non_null (latest_values (pre @ [(t, c)]))" .
  have cell: "?h2 ! length h = ?F" by (rule last_store_cell)
  show ?case
  proof (cases i)
    case 0
    then show ?thesis unfolding x unf using dF mF by simp
  next
    case (Suc j)
    have j: "j < length cs" using Cons.prems(4) Suc by simp
    have a': "length h < length ?h2" by simp
    have "distinct (map fst (?h2 ! length h))" and "map_of (?h2 ! length h) = non_null (latest_values (pre @ [(t, c)]))"
      unfolding cell using dF mF by simp_all
    from Cons.IH [OF a' this j]
    show ?thesis unfolding x unf using Suc by simp
  qed
qed

section \<open>The aggregated states\<close>

lemma seen_at_yield_Nil: "seen_at_yield (full_states_loop h a []) = []"
  by (simp add: seen_at_yield_def)

lemma timestamps_seen_at_yield: "map fst (seen_at_yield ys) = map fst ys"
  by (induction ys) (auto simp: seen_at_yield_def)

lemma iter_full_states_timestamps:
  "map fst (seen_at_yield (iter_full_states changes)) = map fst changes"
  by (simp add: timestamps_seen_at_yield iter_full_states_def timestamps_full_states_loop)

lemma iter_full_states_step:
  assumes "i < length changes"
  shows "snd (seen_at_yield (iter_full_states changes) ! i)
          = filter (\<lambda>(key, value). value \<noteq> PNone)
              (dict_update
                 (if i = 0 then [] else snd (seen_at_yield (iter_full_states changes) ! (i - 1)))
                 (updates (snd (changes ! i))))"
proof -
  have a0: "(0::nat) < length [[] :: dict]" by simp
  have c0: "[[] :: dict] ! 0 = []" by simp
  show ?thesis
    using seen_at_yield_step [OF a0 assms] unfolding iter_full_states_def c0 .
qed

lemma iter_full_states_latest:
  assumes "i < length changes"
  shows "distinct (map fst (snd (seen_at_yield (iter_full_states changes) ! i)))
      \<and> map_of (snd (seen_at_yield (iter_full_states changes) ! i))
          = non_null (latest_values (take (Suc i) changes))"
proof -
  have a0: "(0::nat) < length [[] :: dict]" by simp
  have d0: "distinct (map fst ([[] :: dict] ! 0))" by simp
  have m0: "map_of ([[] :: dict] ! 0) = non_null (latest_values ([] :: ('a \<times> change) list))"
    by (simp add: non_null_def latest_values_def)
  have e: "[] @ take (Suc i) changes = take (Suc i) changes" by simp
  show ?thesis
    using seen_at_yield_latest [OF a0 d0 m0 assms] unfolding iter_full_states_def e .
qed

lemma iter_full_states_example:
  "seen_at_yield (iter_full_states
         [(t1, \<lparr>updates = [(''a'', PNumber 1)], removals = r1\<rparr>),
          (t2, \<lparr>updates = [(''b'', PNumber 2)], removals = r2\<rparr>),
          (t3, \<lparr>updates = [(''a'', PNone)], removals = r3\<rparr>)])
       = [(t1, [(''a'', PNumber 1)]),
          (t2, [(''a'', PNumber 1), (''b'', PNumber 2)]),
          (t3, [(''b'', PNumber 2)])]"
  unfolding iter_full_states_def
  by (simp add: seen_at_yield_Cons seen_at_yield_Nil dict_update_def nth_append
        del: full_states_loop.simps)

text \<open>
  The snapshots as they are at the moment of their yield: one per change, with the
  timestamp of the change; each is obtained from the one before (the empty dictionary
  for the first change) by storing every item of \<open>change.updates\<close> and then dropping
  every key whose value is \<open>None\<close>, and holds a key exactly when the value most
  recently stored under that key is not \<open>None\<close>.
\<close>

lemma seen_at_yield_snapshots:
  "map fst (seen_at_yield (iter_full_states changes)) = map fst changes
   \<and> (\<forall>i < length changes.
        snd (seen_at_yield (iter_full_states changes) ! i)
          = filter (\<lambda>(key, value). value \<noteq> PNone)
              (dict_update
                 (if i = 0 then [] else snd (seen_at_yield (iter_full_states changes) ! (i - 1)))
                 (updates (snd (changes ! i))))
      \<and> distinct (map fst (snd (seen_at_yield (iter_full_states changes) ! i)))
      \<and> map_of (snd (seen_at_yield (iter_full_states changes) ! i))
          = non_null (latest_values (take (Suc i) changes)))
   \<and> seen_at_yield (iter_full_states
         [(t1, \<lparr>updates = [(''a'', PNumber 1)], removals = r1\<rparr>),
          (t2, \<lparr>updates = [(''b'', PNumber 2)], removals = r2\<rparr>),
          (t3, \<lparr>updates = [(''a'', PNone)], removals = r3\<rparr>)])
       = [(t1, [(''a'', PNumber 1)]),
          (t2, [(''a'', PNumber 1), (''b'', PNumber 2)]),
          (t3, [(''b'', PNumber 2)])]"
proof (intro conjI allI impI)
  show "map fst (seen_at_yield (iter_full_states changes)) = map fst changes"
    by (rule iter_full_states_timestamps)
next
  fix i assume i: "i < length changes"
  show "snd (seen_at_yield (iter_full_states changes) ! i)
          = filter (\<lambda>(key, value). value \<noteq> PNone)
              (dict_update
                 (if i = 0 then [] else snd (seen_at_yield (iter_full_states changes) ! (i - 1)))
                 (updates (snd (changes ! i))))"
    using i by (rule iter_full_states_step)
  show "distinct (map fst (snd (seen_at_yield (iter_full_states changes) ! i)))"
    using iter_full_states_latest [OF i] by (rule conjunct1)
  show "map_of (snd (seen_at_yield (iter_full_states changes) ! i))
          = non_null (latest_values (take (Suc i) changes))"
    using iter_full_states_latest [OF i] by (rule conjunct2)
next
  show "seen_at_yield (iter_full_states
         [(t1, \<lparr>updates = [(''a'', PNumber 1)], removals = r1\<rparr>),
          (t2, \<lparr>updates = [(''b'', PNumber 2)], removals = r2\<rparr>),
          (t3, \<lparr>updates = [(''a'', PNone)], removals = r3\<rparr>)])
       = [(t1, [(''a'', PNumber 1)]),
          (t2, [(''a'', PNumber 1), (''b'', PNumber 2)]),
          (t3, [(''b'', PNumber 2)])]"
    by (rule iter_full_states_example)
qed


text \<open>
  Claim C1 (each change gives one snapshot, which holds a key exactly when the value
  most recently stored under it is not \<open>None\<close>; the changes \<open>{a: 1}\<close>, \<open>{b: 2}\<close>,
  \<open>{a: None}\<close> give the snapshots \<open>{a: 1}\<close>, \<open>{a: 1, b: 2}\<close>, \<open>{b: 2}\<close>). The code on the
  changes of the claim: the generator yields its accumulator, not a copy, and
  updates it in place when it is resumed. Each snapshot is the one of the claim at
  the moment of its yield, and the snapshots that \<open>list(iter_full_states(changes))\<close>
  holds are \<open>{a: 1, b: 2}\<close>, \<open>{a: None, b: 2}\<close>, \<open>{b: 2}\<close>.
\<close>

theorem iter_full_states_example_retained:
  "seen_at_yield (iter_full_states
       [(10::nat, \<lparr>updates = [(''a'', PNumber 1)], removals = []\<rparr>),
        (20, \<lparr>updates = [(''b'', PNumber 2)], removals = []\<rparr>),
        (30, \<lparr>updates = [(''a'', PNone)], removals = []\<rparr>)])
     = [(10, [(''a'', PNumber 1)]),
        (20, [(''a'', PNumber 1), (''b'', PNumber 2)]),
        (30, [(''b'', PNumber 2)])]
   \<and> seen_after (iter_full_states
       [(10::nat, \<lparr>updates = [(''a'', PNumber 1)], removals = []\<rparr>),
        (20, \<lparr>updates = [(''b'', PNumber 2)], removals = []\<rparr>),
        (30, \<lparr>updates = [(''a'', PNone)], removals = []\<rparr>)])
     = [(10, [(''a'', PNumber 1), (''b'', PNumber 2)]),
        (20, [(''a'', PNone), (''b'', PNumber 2)]),
        (30, [(''b'', PNumber 2)])]"
  by code_simp

lemma full_states_loop_updates_only:
  "map (\<lambda>(t, c). (t, updates c)) cs = map (\<lambda>(t, c). (t, updates c)) cs'
     \<Longrightarrow> full_states_loop h a cs = full_states_loop h a cs'"
proof (induction cs arbitrary: cs' h a)
  case Nil
  then show ?case by simp
next
  case (Cons x cs)
  from Cons.prems obtain y cs'' where cs': "cs' = y # cs''"
    by (cases cs') auto
  obtain t c where x: "x = (t, c)" by (cases x)
  obtain t' c' where y: "y = (t', c')" by (cases y)
  from Cons.prems have hd: "t = t'" "updates c = updates c'"
    and tl: "map (\<lambda>(t, c). (t, updates c)) cs = map (\<lambda>(t, c). (t, updates c)) cs''"
    unfolding cs' x y by simp_all
  show ?case
    unfolding cs' x y using hd Cons.IH [OF tl] by (simp add: Let_def)
qed

text \<open>
  Claim C8. The result of \<open>iter_full_states\<close> is a function of the sequence of the
  timestamps and the \<open>updates\<close> mappings: two sequences of changes that differ in
  their \<open>removals\<close> only give the same yields (the same addresses in the same stores),
  hence the same snapshots whether they are looked at when yielded or afterwards.
  Every call starts from a new empty accumulator, so that running the generator
  again on the same sequence gives the same result.
\<close>

theorem iter_full_states_ignores_removals:
  assumes "map (\<lambda>(timestamp, c). (timestamp, updates c)) changes
             = map (\<lambda>(timestamp, c). (timestamp, updates c)) changes'"
  shows "iter_full_states changes = iter_full_states changes'
       \<and> seen_at_yield (iter_full_states changes) = seen_at_yield (iter_full_states changes')
       \<and> seen_after (iter_full_states changes) = seen_after (iter_full_states changes')"
proof -
  have "iter_full_states changes = iter_full_states changes'"
    unfolding iter_full_states_def using assms by (rule full_states_loop_updates_only)
  then show ?thesis by simp
qed

theorem iter_full_states_ignores_removals_witness:
  "map (\<lambda>(timestamp, c). (timestamp, updates c))
       [(1::nat, \<lparr>updates = [(''a'', PNumber 1)], removals = [''b'']\<rparr>),
        (2, \<lparr>updates = [(''b'', PNone)], removals = [''a'']\<rparr>)]
     = map (\<lambda>(timestamp, c). (timestamp, updates c))
       [(1::nat, \<lparr>updates = [(''a'', PNumber 1)], removals = []\<rparr>),
        (2, \<lparr>updates = [(''b'', PNone)], removals = []\<rparr>)]
   \<and> seen_at_yield (iter_full_states
       [(1::nat, \<lparr>updates = [(''a'', PNumber 1)], removals = [''b'']\<rparr>),
        (2, \<lparr>updates = [(''b'', PNone)], removals = [''a'']\<rparr>)])
     = seen_at_yield (iter_full_states
       [(1::nat, \<lparr>updates = [(''a'', PNumber 1)], removals = []\<rparr>),
        (2, \<lparr>updates = [(''b'', PNone)], removals = []\<rparr>)])"
proof -
  have h: "map (\<lambda>(timestamp, c). (timestamp, updates c))
       [(1::nat, \<lparr>updates = [(''a'', PNumber 1)], removals = [''b'']\<rparr>),
        (2, \<lparr>updates = [(''b'', PNone)], removals = [''a'']\<rparr>)]
     = map (\<lambda>(timestamp, c). (timestamp, updates c))
       [(1::nat, \<lparr>updates = [(''a'', PNumber 1)], removals = []\<rparr>),
        (2, \<lparr>updates = [(''b'', PNone)], removals = []\<rparr>)]"
    by simp
  note r = iter_full_states_ignores_removals [OF h, THEN conjunct2, THEN conjunct1]
  show ?thesis
    by (intro conjI) (rule h, rule r)
qed

lemma seen_at_yield_no_None:
  assumes "(timestamp, d) \<in> set (seen_at_yield (iter_full_states changes))"
      and "(key, value) \<in> set d"
  shows "value \<noteq> PNone"
proof -
  have len: "length (seen_at_yield (iter_full_states changes)) = length changes"
    by (simp add: seen_at_yield_def iter_full_states_def length_full_states_loop)
  from assms(1) obtain i where i: "i < length changes"
    and at: "seen_at_yield (iter_full_states changes) ! i = (timestamp, d)"
    unfolding in_set_conv_nth len by blast
  from iter_full_states_step [OF i] at
  obtain acc where "d = filter (\<lambda>(key, value). value \<noteq> PNone) acc"
    by simp
  with assms(2) show ?thesis by auto
qed

text \<open>
  Claim C10 (no \<open>None\<close> value ever appears in a yielded snapshot). The code at the
  input \<open>[(1, {a: 1}), (2, {a: None})]\<close>: when it is yielded, the first snapshot is
  \<open>{a: 1}\<close>; the generator is resumed and updates that same dictionary in place, so
  that after the second yield the first snapshot is \<open>{a: None}\<close>.
\<close>

theorem iter_full_states_yielded_dict_gets_None:
  "seen_at_yield (iter_full_states
       [(1::nat, \<lparr>updates = [(''a'', PNumber 1)], removals = []\<rparr>),
        (2, \<lparr>updates = [(''a'', PNone)], removals = []\<rparr>)])
     = [(1, [(''a'', PNumber 1)]), (2, [])]
   \<and> seen_after (iter_full_states
       [(1::nat, \<lparr>updates = [(''a'', PNumber 1)], removals = []\<rparr>),
        (2, \<lparr>updates = [(''a'', PNone)], removals = []\<rparr>)])
     = [(1, [(''a'', PNone)]), (2, [])]"
  by code_simp

section \<open>The renaming of the keys\<close>

lemma spec_rename_without_dict:
  "\<not> contains_dict value \<Longrightarrow> spec_rename value f t = value"
proof (induction "value")
  case (PList elements)
  have "map (\<lambda>value. spec_rename value f t) elements = elements"
    using PList by (simp add: list_ex_iff map_idI)
  then show ?case by simp
qed simp_all

lemma recursive_replace_spec_rename:
  "no_dict_in_list value \<Longrightarrow> recursive_replace value f t = spec_rename value f t"
proof (induction "value")
  case (PDict items)
  have eq: "map (\<lambda>(key, value). (str_replace key f t, recursive_replace value f t)) items
      = map (\<lambda>(key, value). (str_replace key f t, spec_rename value f t)) items"
  proof (rule map_cong [OF refl])
    fix x assume x: "x \<in> set items"
    obtain k v where kv: "x = (k, v)" by (cases x)
    have "no_dict_in_list v"
      using PDict.prems x kv by (auto simp: list_all_iff)
    moreover have "v \<in> Basic_BNFs.snds x"
      using kv by simp
    ultimately have "recursive_replace v f t = spec_rename v f t"
      using PDict.IH x by blast
    then show "(case x of (key, value) \<Rightarrow> (str_replace key f t, recursive_replace value f t))
             = (case x of (key, value) \<Rightarrow> (str_replace key f t, spec_rename value f t))"
      using kv by simp
  qed
  show ?case
    by (simp only: recursive_replace.simps spec_rename.simps eq)
next
  case (PList elements)
  have "\<not> contains_dict (PList elements)"
    using PList.prems by simp
  then have "spec_rename (PList elements) f t = PList elements"
    by (rule spec_rename_without_dict)
  then show ?case by simp
qed simp_all

lemma recursive_replace_not_dict:
  "\<not> is_dict value \<Longrightarrow> recursive_replace value f t = value"
  by (cases "value") simp_all


lemma map_of_dict_of_items: "map_of (dict_of_items kvs) = map_of (rev kvs)"
  by (simp add: dict_of_items_def map_of_dict_update)

lemma distinct_dict_of_items: "distinct (map fst (dict_of_items kvs))"
  unfolding dict_of_items_def by (rule distinct_dict_update) simp

lemma keys_dict_of_items: "fst ` set (dict_of_items kvs) = fst ` set kvs"
proof -
  have "dom (map_of (dict_of_items kvs)) = dom (map_of (rev kvs))"
    by (simp add: map_of_dict_of_items)
  then show ?thesis
    by (simp add: dom_map_of_conv_image_fst)
qed

lemma replace_updates_keys:
  "fst ` set (replace_updates items f t) = (\<lambda>key. str_replace key f t) ` fst ` set items"
  unfolding replace_updates_def keys_dict_of_items
  by (force simp: image_iff)

lemma replace_updates_lookup:
  "map_of (replace_updates items f t) key'
     = map_option (\<lambda>v. recursive_replace v f t)
         (map_of (rev (map (\<lambda>(key, v). (str_replace key f t, v)) items)) key')"
proof -
  have "rev (map (\<lambda>(key, value). (str_replace key f t, recursive_replace value f t)) items)
      = map (\<lambda>(k, v). (k, recursive_replace v f t))
          (rev (map (\<lambda>(key, v). (str_replace key f t, v)) items))"
    by (simp add: rev_map case_prod_beta)
  then show ?thesis
    unfolding replace_updates_def map_of_dict_of_items
    by (simp only: map_of_map comp_apply)
qed

text \<open>
  What \<open>recursive_replace\<close> computes: a value that is not a mapping is returned as it
  is, a scalar as well as an array with everything inside it. On a mapping the result
  is the mapping that \<open>replace_and_copy_records\<close> builds for \<open>change.updates\<close>: its
  keys are the replaced keys of the input, each key once, and the value under a key
  is the rewritten value of the last input item whose replaced key it is. On a value
  with no mapping inside an array the result is the renaming that the spec describes.
\<close>

lemma recursive_replace_on_mappings:
  "(no_dict_in_list value \<longrightarrow> recursive_replace value f t = spec_rename value f t)
   \<and> (\<not> is_dict value \<longrightarrow> recursive_replace value f t = value)
   \<and> recursive_replace (PList elements) f t = PList elements
   \<and> recursive_replace (PDict items) f t = PDict (replace_updates items f t)
   \<and> distinct (map fst (replace_updates items f t))
   \<and> fst ` set (replace_updates items f t) = (\<lambda>key. str_replace key f t) ` fst ` set items
   \<and> (\<forall>key'. map_of (replace_updates items f t) key'
         = map_option (\<lambda>v. recursive_replace v f t)
             (map_of (rev (map (\<lambda>(key, v). (str_replace key f t, v)) items)) key'))"
proof (intro conjI impI allI)
  show "recursive_replace (PDict items) f t = PDict (replace_updates items f t)"
    by (simp add: replace_updates_def)
  show "distinct (map fst (replace_updates items f t))"
    unfolding replace_updates_def by (rule distinct_dict_of_items)
qed (simp_all add: recursive_replace_spec_rename recursive_replace_not_dict
       replace_updates_keys replace_updates_lookup)

text \<open>
  Claim C2 (the replacement is applied to every mapping key at every depth of every
  \<open>updates\<close> value, also to the keys of the mappings that are elements of an array).
  The code at the array \<open>[{narupa.x: 1}]\<close> and at the updates \<open>{k: [{narupa.x: 1}]}\<close>,
  with \<open>narupa\<close> to be replaced by \<open>nanover\<close>: \<open>recursive_replace\<close> has no case for
  lists and returns the array as it is, so the key \<open>narupa.x\<close> stays, where the
  renaming of the spec gives \<open>nanover.x\<close>.
\<close>

theorem recursive_replace_skips_arrays:
  "recursive_replace (PList [PDict [(''narupa.x'', PNumber 1)]]) ''narupa'' ''nanover''
     \<noteq> spec_rename (PList [PDict [(''narupa.x'', PNumber 1)]]) ''narupa'' ''nanover''
   \<and> recursive_replace (PList [PDict [(''narupa.x'', PNumber 1)]]) ''narupa'' ''nanover''
     = PList [PDict [(''narupa.x'', PNumber 1)]]
   \<and> replace_updates [(''k'', PList [PDict [(''narupa.x'', PNumber 1)]])] ''narupa'' ''nanover''
     = [(''k'', PList [PDict [(''narupa.x'', PNumber 1)]])]"
  by code_simp

section \<open>The rewriting of a recording\<close>

text \<open>
  Claim C3 (the rewrite applies the substitution to the keys of \<open>updates\<close> and to
  every entry of \<open>removals\<close> and emits the record again with its timestamp). The code
  at the change with \<open>updates = {narupa.a: 1}\<close> and \<open>removals = {narupa.b}\<close>, timestamp
  5: the comprehension reads \<open>change.removes\<close> and unpacks each element into
  \<open>key, value\<close>. When the attribute does not exist the record fails with
  \<open>AttributeError\<close>; when it names the removals, the key \<open>narupa.b\<close> does not unpack
  into two targets and the record fails with \<open>ValueError\<close>. Nothing is written in
  either case. A removal key of two characters, \<open>ab\<close>, unpacks into \<open>a\<close> and \<open>b\<close>, and
  the record is written with the removal \<open>a\<close>.
\<close>

theorem replace_and_copy_record_removes:
  "replace_and_copy_record
       \<lparr>lib_magic_number = M, lib_decode = dec, lib_encode = enc,
        lib_removes = (\<lambda>c. Inl AttributeError)\<rparr>
       [] 5 \<lparr>updates = [(''narupa.a'', PNumber 1)], removals = [''narupa.b'']\<rparr>
       ''narupa'' ''nanover''
     = ([], Inl AttributeError)
   \<and> replace_and_copy_record
       \<lparr>lib_magic_number = M, lib_decode = dec, lib_encode = enc,
        lib_removes = (\<lambda>c. Inr (removals c))\<rparr>
       [] 5 \<lparr>updates = [(''narupa.a'', PNumber 1)], removals = [''narupa.b'']\<rparr>
       ''narupa'' ''nanover''
     = ([], Inl ValueError)
   \<and> replace_and_copy_record
       \<lparr>lib_magic_number = M, lib_decode = dec, lib_encode = enc,
        lib_removes = (\<lambda>c. Inr (removals c))\<rparr>
       [] 5 \<lparr>updates = [(''narupa.a'', PNumber 1)], removals = [''ab'']\<rparr>
       ''narupa'' ''nanover''
     = write_entry [] 5 (enc \<lparr>updates = [(''nanover.a'', PNumber 1)], removals = [''a'']\<rparr>)"
proof (intro conjI)
  have u: "replace_updates [(''narupa.a'', PNumber 1)] ''narupa'' ''nanover''
             = [(''nanover.a'', PNumber 1)]"
    by code_simp
  have r1: "replace_removes [''narupa.b''] ''narupa'' ''nanover'' = Inl ValueError"
    by code_simp
  have r2: "replace_removes [''ab''] ''narupa'' ''nanover'' = Inr [''a'']"
    by code_simp
  have sr: "str_replace ''a'' ''narupa'' ''nanover'' = ''a''"
    by code_simp
  show "replace_and_copy_record
       \<lparr>lib_magic_number = M, lib_decode = dec, lib_encode = enc,
        lib_removes = (\<lambda>c. Inl AttributeError)\<rparr>
       [] 5 \<lparr>updates = [(''narupa.a'', PNumber 1)], removals = [''narupa.b'']\<rparr>
       ''narupa'' ''nanover''
     = ([], Inl AttributeError)"
    by (simp add: replace_and_copy_record_def)
  show "replace_and_copy_record
       \<lparr>lib_magic_number = M, lib_decode = dec, lib_encode = enc,
        lib_removes = (\<lambda>c. Inr (removals c))\<rparr>
       [] 5 \<lparr>updates = [(''narupa.a'', PNumber 1)], removals = [''narupa.b'']\<rparr>
       ''narupa'' ''nanover''
     = ([], Inl ValueError)"
    by (simp add: replace_and_copy_record_def r1)
  show "replace_and_copy_record
       \<lparr>lib_magic_number = M, lib_decode = dec, lib_encode = enc,
        lib_removes = (\<lambda>c. Inr (removals c))\<rparr>
       [] 5 \<lparr>updates = [(''narupa.a'', PNumber 1)], removals = [''ab'']\<rparr>
       ''narupa'' ''nanover''
     = write_entry [] 5 (enc \<lparr>updates = [(''nanover.a'', PNumber 1)], removals = [''a'']\<rparr>)"
    by (simp add: replace_and_copy_record_def r2 u sr)
qed

text \<open>
  Claim C4 (the \<open>--narupa\<close> path writes the 16 header bytes of the input to the
  output before any frame). The code on a recording that consists of a valid header
  and no frame: nothing is written, whereas \<open>copy_header\<close>, which is never called,
  would write the 16 bytes. On a recording with the header and one frame (timestamp
  7, payload of one byte), with a library in which reading \<open>removes\<close> gives the
  removals of the change and the change has none, the output is the 25 bytes of the
  frame, without header.
\<close>

theorem replace_narupa_writes_no_header:
  "command_line_narupa
       \<lparr>lib_magic_number = 6661355757386708963, lib_decode = dec, lib_encode = enc,
        lib_removes = rem\<rparr>
       [227, 183, 137, 153, 196, 227, 113, 92, 2, 0, 0, 0, 0, 0, 0, 0]
     = ([], Inr ())
   \<and> copy_header 6661355757386708963
       [227, 183, 137, 153, 196, 227, 113, 92, 2, 0, 0, 0, 0, 0, 0, 0] []
     = Inr ([], [[227, 183, 137, 153, 196, 227, 113, 92, 2, 0, 0, 0, 0, 0, 0, 0]],
            \<lparr>magic_number = 6661355757386708963, format_version = 2\<rparr>)
   \<and> command_line_narupa
       \<lparr>lib_magic_number = 6661355757386708963,
        lib_decode = (\<lambda>payload. Some \<lparr>updates = [], removals = []\<rparr>),
        lib_encode = (\<lambda>c. [42]),
        lib_removes = (\<lambda>c. Inr (removals c))\<rparr>
       ([227, 183, 137, 153, 196, 227, 113, 92, 2, 0, 0, 0, 0, 0, 0, 0] @
        [7, 0, 0, 0, 0, 0, 0, 0, 0, 0, 0, 0, 0, 0, 0, 0,  1, 0, 0, 0, 0, 0, 0, 0,  42])
     = ([7, 0, 0, 0, 0, 0, 0, 0, 0, 0, 0, 0, 0, 0, 0, 0,  1, 0, 0, 0, 0, 0, 0, 0,  42], Inr ())"
proof (intro conjI)
  have hd: "read_header 6661355757386708963
              [227, 183, 137, 153, 196, 227, 113, 92, 2, 0, 0, 0, 0, 0, 0, 0]
            = Inr (\<lparr>magic_number = 6661355757386708963, format_version = 2\<rparr>, [])"
    by code_simp
  have fr: "iter_frames [] = ([], None)"
    by (simp add: iter_frames.simps)
  show "command_line_narupa
       \<lparr>lib_magic_number = 6661355757386708963, lib_decode = dec, lib_encode = enc,
        lib_removes = rem\<rparr>
       [227, 183, 137, 153, 196, 227, 113, 92, 2, 0, 0, 0, 0, 0, 0, 0]
     = ([], Inr ())"
    by (simp add: command_line_narupa_def replace_narupa_def replace_and_copy_records_def
          iter_state_recording_def hd fr)
  show "copy_header 6661355757386708963
       [227, 183, 137, 153, 196, 227, 113, 92, 2, 0, 0, 0, 0, 0, 0, 0] []
     = Inr ([], [[227, 183, 137, 153, 196, 227, 113, 92, 2, 0, 0, 0, 0, 0, 0, 0]],
            \<lparr>magic_number = 6661355757386708963, format_version = 2\<rparr>)"
    by code_simp
  show "command_line_narupa
       \<lparr>lib_magic_number = 6661355757386708963,
        lib_decode = (\<lambda>payload. Some \<lparr>updates = [], removals = []\<rparr>),
        lib_encode = (\<lambda>c. [42]),
        lib_removes = (\<lambda>c. Inr (removals c))\<rparr>
       ([227, 183, 137, 153, 196, 227, 113, 92, 2, 0, 0, 0, 0, 0, 0, 0] @
        [7, 0, 0, 0, 0, 0, 0, 0, 0, 0, 0, 0, 0, 0, 0, 0,  1, 0, 0, 0, 0, 0, 0, 0,  42])
     = ([7, 0, 0, 0, 0, 0, 0, 0, 0, 0, 0, 0, 0, 0, 0, 0,  1, 0, 0, 0, 0, 0, 0, 0,  42], Inr ())"
    by code_simp
qed

lemma replace_and_copy_record_writes:
  "\<exists>frames. fst (replace_and_copy_record lib out ts c f t) = out @ frames
     \<and> (\<forall>r \<in> set frames. 24 \<le> length r)"
proof (cases "replace_and_copy_record lib out ts c f t = (out, snd (replace_and_copy_record lib out ts c f t))")
  case True
  then have "fst (replace_and_copy_record lib out ts c f t) = out @ []"
    by (metis append_Nil2 fst_conv)
  then show ?thesis by (intro exI [of _ "[]"]) simp
next
  case False
  then obtain m where w: "replace_and_copy_record lib out ts c f t = write_entry out ts m"
    by (auto simp: replace_and_copy_record_def Let_def split: sum.splits)
  show ?thesis
  proof (cases "frame_record ts m")
    case (Inl e)
    then show ?thesis using w by (intro exI [of _ "[]"]) (simp add: write_entry_def)
  next
    case (Inr r)
    then show ?thesis
      using w frame_record_length [OF Inr]
      by (intro exI [of _ "[r]"]) (simp add: write_entry_def)
  qed
qed

lemma copy_records_writes:
  "\<exists>frames. fst (copy_records lib cs e out f t) = out @ frames
     \<and> (\<forall>r \<in> set frames. 24 \<le> length r)"
proof (induction cs arbitrary: out)
  case Nil
  show ?case by (cases e) (simp_all)
next
  case (Cons x cs)
  obtain ts c where x: "x = (ts, c)" by (cases x)
  obtain out' res where step: "replace_and_copy_record lib out ts c f t = (out', res)"
    by (cases "replace_and_copy_record lib out ts c f t")
  from replace_and_copy_record_writes [of lib out ts c f t] step
  obtain fs where fs: "out' = out @ fs" "\<forall>r \<in> set fs. 24 \<le> length r"
    by auto
  show ?case
  proof (cases res)
    case (Inl e')
    then show ?thesis using x step fs by (intro exI [of _ fs]) simp
  next
    case (Inr u)
    from Cons.IH [of out'] obtain gs where
      gs: "fst (copy_records lib cs e out' f t) = out' @ gs" "\<forall>r \<in> set gs. 24 \<le> length r"
      by blast
    show ?thesis
      using x step Inr fs gs by (intro exI [of _ "fs @ gs"]) auto
  qed
qed

lemma replace_narupa_writes_frames_only:
  "\<exists>frames. fst (replace_narupa lib input_stream output_stream) = output_stream @ frames
     \<and> (\<forall>r \<in> set frames. 24 \<le> length r)"
  unfolding replace_narupa_def replace_and_copy_records_def
  by (cases "iter_state_recording lib input_stream") (simp add: copy_records_writes)

end
